theory Spec2Isabelle
  imports Main "HOL-Library.Word"
begin

section \<open>JavaScript values\<close>

text \<open>
  A JavaScript string is a sequence of UTF-16 code units; \<open>.length\<close> counts them and a
  regular expression without the \<open>u\<close> flag reads them one at a time. \<open>js\<close> turns an
  ASCII literal into its code units.
\<close>

type_synonym jsstring = "16 word list"

definition js :: "string \<Rightarrow> jsstring" where
  "js s = map of_char s"

text \<open>
  The primitive values a parsed JSON body can carry, and \<open>undefined\<close>. Numbers are the
  integers (a JavaScript number is exact on them below \<open>2 ^ 53\<close>). Nested objects and
  arrays are left out: no operation of the store looks inside a field value.
\<close>

datatype jsval = JUndefined | JNull | JBool bool | JNum int | JStr jsstring

text \<open>An object is a finite map from property names to values; reading a property that
  is not there gives \<open>undefined\<close>.\<close>

type_synonym obj = "jsstring \<rightharpoonup> jsval"

definition getProp :: "obj \<Rightarrow> jsstring \<Rightarrow> jsval" where
  "getProp ob k = (case ob k of None \<Rightarrow> JUndefined | Some v \<Rightarrow> v)"

text \<open>Truthiness, as \<open>!x\<close> and \<open>x && y\<close> test it.\<close>

fun truthy :: "jsval \<Rightarrow> bool" where
  "truthy JUndefined = False"
| "truthy JNull = False"
| "truthy (JBool b) = b"
| "truthy (JNum n) = (n \<noteq> 0)"
| "truthy (JStr s) = (s \<noteq> [])"

section \<open>The built-in \<open>Map\<close>\<close>

text \<open>
  A JavaScript \<open>Map\<close> iterates in the order in which its keys were inserted: \<open>set\<close> on
  a key that is present replaces the value where it stands, \<open>set\<close> on a new key appends,
  \<open>delete\<close> removes the entry. It is an association list in that order, which
  \<open>set\<close> and \<open>delete\<close> keep free of duplicate keys.
\<close>

type_synonym ('k, 'v) jsmap = "('k \<times> 'v) list"

fun Map_get :: "('k, 'v) jsmap \<Rightarrow> 'k \<Rightarrow> 'v option" where
  "Map_get [] k = None"
| "Map_get ((a, b) # m) k = (if a = k then Some b else Map_get m k)"

fun Map_has :: "('k, 'v) jsmap \<Rightarrow> 'k \<Rightarrow> bool" where
  "Map_has [] k = False"
| "Map_has ((a, b) # m) k = (a = k \<or> Map_has m k)"

fun Map_set :: "('k, 'v) jsmap \<Rightarrow> 'k \<Rightarrow> 'v \<Rightarrow> ('k, 'v) jsmap" where
  "Map_set [] k v = [(k, v)]"
| "Map_set ((a, b) # m) k v = (if a = k then (k, v) # m else (a, b) # Map_set m k v)"

fun Map_delete :: "('k, 'v) jsmap \<Rightarrow> 'k \<Rightarrow> ('k, 'v) jsmap" where
  "Map_delete [] k = []"
| "Map_delete ((a, b) # m) k = (if a = k then Map_delete m k else (a, b) # Map_delete m k)"

definition Map_values :: "('k, 'v) jsmap \<Rightarrow> 'v list" where
  "Map_values m = map snd m"

section \<open>UserService\<close>

text \<open>
  The two static fields of the class. The clock is outside the store: every
  \<open>new Date().toISOString()\<close> of the source is an argument of the operation that
  evaluates it, the string the clock gave at that moment.
\<close>

record store =
  users :: "(jsval, obj) jsmap"
  nextId :: int

definition init_store :: store where
  "init_store = \<lparr>users = [], nextId = 1\<rparr>"

datatype error = UserNotFound

text \<open>\<open>Array.from(this.users.values())\<close>\<close>

definition getAllUsers :: "store \<Rightarrow> obj list \<times> store" where
  "getAllUsers s = (Map_values (users s), s)"

text \<open>
  The object literal is evaluated left to right: \<open>id\<close> takes the counter, which is
  then incremented; the caller's fields are spread over it; \<open>createdAt\<close> and
  \<open>updatedAt\<close> are written last, each from its own reading of the clock.
\<close>

definition createUser :: "store \<Rightarrow> obj \<Rightarrow> jsstring \<Rightarrow> jsstring \<Rightarrow> obj \<times> store" where
  "createUser s userData now1 now2 =
     (let s1 = s\<lparr>nextId := nextId s + 1\<rparr>;
          user = (([js ''id'' \<mapsto> JNum (nextId s)] ++ userData)
                    (js ''createdAt'' \<mapsto> JStr now1))
                    (js ''updatedAt'' \<mapsto> JStr now2)
      in (user, s1\<lparr>users := Map_set (users s1) (getProp user (js ''id'')) user\<rparr>))"

text \<open>\<open>this.users.get(id)\<close>: \<open>None\<close> is the \<open>undefined\<close> of a missing key.\<close>

definition getUserById :: "store \<Rightarrow> jsval \<Rightarrow> obj option \<times> store" where
  "getUserById s ident = (Map_get (users s) ident, s)"

text \<open>A stored user is an object, hence truthy: \<open>!user\<close> holds exactly when the key is
  missing.\<close>

definition updateUser :: "store \<Rightarrow> jsval \<Rightarrow> obj \<Rightarrow> jsstring \<Rightarrow> (error + obj) \<times> store" where
  "updateUser s ident userData now =
     (case Map_get (users s) ident of
        None \<Rightarrow> (Inl UserNotFound, s)
      | Some user \<Rightarrow>
          (let updatedUser = (user ++ userData)(js ''updatedAt'' \<mapsto> JStr now)
           in (Inr updatedUser, s\<lparr>users := Map_set (users s) ident updatedUser\<rparr>)))"

definition deleteUser :: "store \<Rightarrow> jsval \<Rightarrow> (error + unit) \<times> store" where
  "deleteUser s ident =
     (if \<not> Map_has (users s) ident then (Inl UserNotFound, s)
      else (Inr (), s\<lparr>users := Map_delete (users s) ident\<rparr>))"

text \<open>
  The request handlers call the service one operation after the other. An operation
  carries its arguments and the clock readings it will make; a reply is what the
  operation returned or threw.
\<close>

datatype op =
    GetAll
  | Create obj jsstring jsstring
  | GetById jsval
  | Update jsval obj jsstring
  | Delete jsval

datatype reply =
    Listed "obj list"
  | Created obj
  | Found "obj option"
  | Updated "error + obj"
  | Deleted "error + unit"

fun step :: "store \<Rightarrow> op \<Rightarrow> reply \<times> store" where
  "step s GetAll = (let (r, s') = getAllUsers s in (Listed r, s'))"
| "step s (Create userData now1 now2) =
     (let (r, s') = createUser s userData now1 now2 in (Created r, s'))"
| "step s (GetById ident) = (let (r, s') = getUserById s ident in (Found r, s'))"
| "step s (Update ident userData now) =
     (let (r, s') = updateUser s ident userData now in (Updated r, s'))"
| "step s (Delete ident) = (let (r, s') = deleteUser s ident in (Deleted r, s'))"

fun run :: "store \<Rightarrow> op list \<Rightarrow> reply list \<times> store" where
  "run s [] = ([], s)"
| "run s (x # xs) =
     (let (r, s1) = step s x; (rs, s2) = run s1 xs in (r # rs, s2))"

text \<open>The \<open>id\<close> fields of the records that the create calls of a run returned, in call
  order.\<close>

fun created_ids :: "reply list \<Rightarrow> jsval list" where
  "created_ids [] = []"
| "created_ids (Created user # rs) = getProp user (js ''id'') # created_ids rs"
| "created_ids (_ # rs) = created_ids rs"

text \<open>
  \<open>a > b\<close> on two strings compares them code unit by code unit; two ISO-8601 strings of
  one length are ordered that way as the instants they denote. \<open>later a b\<close> is \<open>a > b\<close>
  for two timestamp fields.
\<close>

fun str_less :: "jsstring \<Rightarrow> jsstring \<Rightarrow> bool" where
  "str_less [] [] = False"
| "str_less [] (y # ys) = True"
| "str_less (x # xs) [] = False"
| "str_less (x # xs) (y # ys) = (x < y \<or> (x = y \<and> str_less xs ys))"

fun later :: "jsval \<Rightarrow> jsval \<Rightarrow> bool" where
  "later (JStr a) (JStr b) = str_less b a"
| "later _ _ = False"

section \<open>ValidationUtils\<close>

text \<open>
  The character class \<open>\s\<close>: the white space and line terminator code units of
  ECMAScript.
\<close>

definition is_space :: "16 word \<Rightarrow> bool" where
  "is_space c =
     (c \<in> {0x09, 0x0A, 0x0B, 0x0C, 0x0D, 0x20, 0xA0, 0x1680, 0x2028, 0x2029, 0x202F,
            0x205F, 0x3000, 0xFEFF}
      \<or> (0x2000 \<le> c \<and> c \<le> 0x200A))"

text \<open>
  The regular expressions of the source are anchored sequences of single characters and
  of \<open>+\<close> repetitions of a class. \<open>rx_test\<close> is the backtracking matcher on them: a
  repetition takes one character and then first tries to take more, then to go on with
  the rest of the pattern; the empty pattern is the anchor \<open>$\<close>.
\<close>

datatype cclass = Lit "16 word" | NotSpaceAt

fun in_class :: "cclass \<Rightarrow> 16 word \<Rightarrow> bool" where
  "in_class (Lit a) c = (c = a)"
| "in_class NotSpaceAt c = (\<not> is_space c \<and> c \<noteq> 0x40)"

datatype item = One cclass | Many cclass

fun rx_test :: "item list \<Rightarrow> jsstring \<Rightarrow> bool" where
  "rx_test [] s = (s = [])"
| "rx_test (One cl # r) [] = False"
| "rx_test (One cl # r) (c # s) = (in_class cl c \<and> rx_test r s)"
| "rx_test (Many cl # r) [] = False"
| "rx_test (Many cl # r) (c # s) =
     (in_class cl c \<and> (rx_test (Many cl # r) s \<or> rx_test r s))"

text \<open>\<open>/^[^\s@]+@[^\s@]+\.[^\s@]+$/\<close>\<close>

definition emailRegex :: "item list" where
  "emailRegex =
     [Many NotSpaceAt, One (Lit 0x40), Many NotSpaceAt, One (Lit 0x2E), Many NotSpaceAt]"

definition validateEmail :: "jsstring \<Rightarrow> bool" where
  "validateEmail email = rx_test emailRegex email"

text \<open>
  \<open>a && b\<close> is \<open>a\<close> when \<open>a\<close> is falsy and \<open>b\<close> otherwise, so the two other predicates
  return their argument when it is \<open>undefined\<close>, \<open>null\<close> or empty, and a boolean
  otherwise. \<open>x.length\<close> is a number on a string and \<open>undefined\<close> on a number or a
  boolean, and a comparison with \<open>undefined\<close> is false.
\<close>

definition js_and :: "jsval \<Rightarrow> jsval \<Rightarrow> jsval" where
  "js_and a b = (if truthy a then b else a)"

fun js_length :: "jsval \<Rightarrow> int option" where
  "js_length (JStr s) = Some (int (length s))"
| "js_length _ = None"

definition length_ge :: "jsval \<Rightarrow> int \<Rightarrow> jsval" where
  "length_ge x k = JBool (case js_length x of None \<Rightarrow> False | Some n \<Rightarrow> n \<ge> k)"

definition length_le :: "jsval \<Rightarrow> int \<Rightarrow> jsval" where
  "length_le x k = JBool (case js_length x of None \<Rightarrow> False | Some n \<Rightarrow> n \<le> k)"

definition validateUsername :: "jsval \<Rightarrow> jsval" where
  "validateUsername username =
     js_and (js_and username (length_ge username 3)) (length_le username 50)"

definition validatePassword :: "jsval \<Rightarrow> jsval" where
  "validatePassword password = js_and password (length_ge password 8)"

section \<open>rateLimiter\<close>

text \<open>
  \<open>rateLimiter(windowMs, max)\<close> returns a middleware that owns the map \<open>requests\<close>,
  empty at first and reachable through the middleware only. One call of the middleware
  reads the key \<open>req.ip\<close> and the clock \<open>Date.now()\<close>, and either answers 429 or calls
  \<open>next()\<close>. \<open>filter\<close> builds a new array, so the stored array is replaced on admission
  only.
\<close>

datatype response = TooManyRequests | Next

type_synonym requests = "(jsval, int list) jsmap"

definition rateLimiter ::
  "int \<Rightarrow> int \<Rightarrow> requests \<Rightarrow> jsval \<Rightarrow> int \<Rightarrow> response \<times> requests" where
  "rateLimiter windowMs max' requests key now =
     (let windowStart = now - windowMs;
          requests1 = (if \<not> Map_has requests key then Map_set requests key [] else requests);
          userRequests = (case Map_get requests1 key of None \<Rightarrow> [] | Some ts \<Rightarrow> ts);
          validRequests = filter (\<lambda>time. time > windowStart) userRequests
      in if int (length validRequests) \<ge> max' then (TooManyRequests, requests1)
         else (Next, Map_set requests1 key (validRequests @ [now])))"

text \<open>The map after a sequence of calls \<open>(key, now)\<close> of one middleware.\<close>

fun serve :: "int \<Rightarrow> int \<Rightarrow> requests \<Rightarrow> (jsval \<times> int) list \<Rightarrow> requests" where
  "serve windowMs max' requests [] = requests"
| "serve windowMs max' requests ((key, now) # calls) =
     serve windowMs max' (snd (rateLimiter windowMs max' requests key now)) calls"

text \<open>The timestamps stored for a key, none when the key has not been seen.\<close>

definition stored :: "requests \<Rightarrow> jsval \<Rightarrow> int list" where
  "stored requests key = (case Map_get requests key of None \<Rightarrow> [] | Some ts \<Rightarrow> ts)"

section \<open>The statements of the specification\<close>

text \<open>
  The shape the specification gives for an accepted address: a local part, \<open>@\<close>, a domain
  part, \<open>.\<close> and a last segment, the three parts non-empty and free of white space and
  of \<open>@\<close>.
\<close>

definition email_shape :: "jsstring \<Rightarrow> bool" where
  "email_shape s =
     (\<exists>local domain tld.
        s = local @ [0x40] @ domain @ [0x2E] @ tld
        \<and> local \<noteq> [] \<and> domain \<noteq> [] \<and> tld \<noteq> []
        \<and> (\<forall>c \<in> set local. \<not> is_space c \<and> c \<noteq> 0x40)
        \<and> (\<forall>c \<in> set domain. \<not> is_space c \<and> c \<noteq> 0x40)
        \<and> (\<forall>c \<in> set tld. \<not> is_space c \<and> c \<noteq> 0x40))"

text \<open>
  The example of the specification for update: on a fresh store, create
  \<open>{name: "a", email: "x"}\<close>, then update the record with \<open>{email: "y"}\<close>. The three
  arguments are the readings of the clock, two by the create and one by the update.
\<close>

definition merge_example_create :: "jsstring \<Rightarrow> jsstring \<Rightarrow> obj \<times> store" where
  "merge_example_create now1 now2 =
     createUser init_store [js ''name'' \<mapsto> JStr (js ''a''), js ''email'' \<mapsto> JStr (js ''x'')]
       now1 now2"

definition merge_example_update ::
  "jsstring \<Rightarrow> jsstring \<Rightarrow> jsstring \<Rightarrow> (error + obj) \<times> store" where
  "merge_example_update now1 now2 now3 =
     updateUser (snd (merge_example_create now1 now2))
       (getProp (fst (merge_example_create now1 now2)) (js ''id''))
       [js ''email'' \<mapsto> JStr (js ''y'')] now3"

text \<open>The number of create calls in a sequence of operations, and the field maps that
  leave the \<open>id\<close> to the store.\<close>

fun creates :: "op list \<Rightarrow> nat" where
  "creates [] = 0"
| "creates (Create userData now1 now2 # xs) = Suc (creates xs)"
| "creates (_ # xs) = creates xs"

fun no_id :: "op \<Rightarrow> bool" where
  "no_id (Create userData now1 now2) = (userData (js ''id'') = None)"
| "no_id _ = True"

text \<open>A field of the record stored under an id, and the \<open>createdAt\<close> fields of a
  listing.\<close>

definition field_of :: "store \<Rightarrow> jsval \<Rightarrow> jsstring \<Rightarrow> jsval option" where
  "field_of s ident k = (case Map_get (users s) ident of None \<Rightarrow> None | Some user \<Rightarrow> user k)"

definition created_stamps :: "obj list \<Rightarrow> jsval list" where
  "created_stamps us = map (\<lambda>user. getProp user (js ''createdAt'')) us"

section \<open>Facts about \<open>Map\<close>\<close>

lemma Map_get_set_same: "Map_get (Map_set m k v) k = Some v"
  by (induction m) auto

lemma Map_get_set_other: "k' \<noteq> k \<Longrightarrow> Map_get (Map_set m k v) k' = Map_get m k'"
  by (induction m) auto

lemma Map_has_get: "Map_has m k \<longleftrightarrow> Map_get m k \<noteq> None"
  by (induction m) auto

lemma Map_get_Some_has: "Map_get m k = Some v \<Longrightarrow> Map_has m k"
  by (induction m) (auto split: if_splits)

lemma Map_has_set: "Map_has (Map_set m k v) k' \<longleftrightarrow> k' = k \<or> Map_has m k'"
  by (induction m) (auto split: if_splits)

lemma Map_has_delete: "Map_has (Map_delete m k) k' \<longleftrightarrow> k' \<noteq> k \<and> Map_has m k'"
  by (induction m) (auto split: if_splits)

lemma Map_set_absent: "\<not> Map_has m k \<Longrightarrow> Map_set m k v = m @ [(k, v)]"
  by (induction m) auto

lemma Map_set_keys: "Map_has m k \<Longrightarrow> map fst (Map_set m k v) = map fst m"
  by (induction m) auto

lemma set_Map_set: "set (Map_set m k v) \<subseteq> insert (k, v) (set m)"
  by (induction m) (auto split: if_splits)

lemma key_distinct [simp]:
  "js ''id'' \<noteq> js ''createdAt''" "js ''id'' \<noteq> js ''updatedAt''"
  "js ''createdAt'' \<noteq> js ''updatedAt''"
  by (simp_all add: js_def)

section \<open>The store\<close>

subsection \<open>Timestamps at creation\<close>

text \<open>
  C10. Whatever field map create is given, also one with \<open>createdAt\<close> or \<open>updatedAt\<close>
  keys, the record it returns has \<open>createdAt\<close> and \<open>updatedAt\<close> as the clock gave them
  during the call (the source reads the clock once for each), never as the caller gave
  them, and this record is the one stored under its id.
\<close>

theorem createUser_stamps_from_clock:
  "fst (createUser s userData now1 now2) (js ''createdAt'') = Some (JStr now1)
   \<and> fst (createUser s userData now1 now2) (js ''updatedAt'') = Some (JStr now2)
   \<and> Map_get (users (snd (createUser s userData now1 now2)))
        (getProp (fst (createUser s userData now1 now2)) (js ''id''))
      = Some (fst (createUser s userData now1 now2))"
  by (simp add: createUser_def Let_def Map_get_set_same)

subsection \<open>Failures\<close>

text \<open>
  C9. When update or delete fails, the store after the call is the store before it:
  the record map and the counter are untouched.
\<close>

theorem failed_update_delete_no_mutation:
  "(fst (updateUser s ident userData now) = Inl e
      \<longrightarrow> snd (updateUser s ident userData now) = s)
   \<and> (fst (deleteUser s ident) = Inl e \<longrightarrow> snd (deleteUser s ident) = s)"
  by (simp add: updateUser_def deleteUser_def Let_def split: option.splits)

theorem failed_update_delete_no_mutation_witness:
  "fst (updateUser init_store (JNum 0) Map.empty (js ''t'')) = Inl UserNotFound
   \<and> snd (updateUser init_store (JNum 0) Map.empty (js ''t'')) = init_store
   \<and> fst (deleteUser init_store (JNum 0)) = Inl UserNotFound
   \<and> snd (deleteUser init_store (JNum 0)) = init_store"
  using failed_update_delete_no_mutation
          [of init_store "JNum 0" Map.empty "js ''t''" UserNotFound]
  by (simp add: updateUser_def deleteUser_def init_store_def)

text \<open>A key is in the store after a run only if it was there before or is the id of a
  record that a create of the run returned.\<close>

lemma absent_unless_issued:
  "Map_has (users (snd (run s ops))) k \<Longrightarrow>
     Map_has (users s) k \<or> k \<in> set (created_ids (fst (run s ops)))"
proof (induction ops arbitrary: s)
  case Nil
  then show ?case by simp
next
  case (Cons x xs)
  obtain r s1 where st: "step s x = (r, s1)" by (cases "step s x")
  obtain rs s2 where rn: "run s1 xs = (rs, s2)" by (cases "run s1 xs")
  from Cons.prems st rn have "Map_has (users (snd (run s1 xs))) k" by simp
  then have ih: "Map_has (users s1) k \<or> k \<in> set (created_ids (fst (run s1 xs)))"
    by (rule Cons.IH)
  show ?case
  proof (cases x)
    case GetAll
    with st ih rn show ?thesis by (auto simp: getAllUsers_def)
  next
    case (Create d a b)
    with st ih rn show ?thesis
      by (auto simp: createUser_def Let_def Map_has_set)
  next
    case (GetById i)
    with st ih rn show ?thesis by (auto simp: getUserById_def)
  next
    case (Update i d a)
    with st ih rn show ?thesis
      by (auto simp: updateUser_def Let_def Map_has_set split: option.splits
               dest: Map_get_Some_has)
  next
    case (Delete i)
    with st ih rn show ?thesis
      by (auto simp: deleteUser_def Map_has_delete split: if_splits)
  qed
qed

text \<open>
  C6. getById answers \<open>undefined\<close>, and update and delete throw \<open>User not found\<close>, exactly
  when the id is not a key of the store at the call; so a failed update or delete is
  never a silent success. An id that no create has returned since the store was fresh,
  such as 0 before any record carries it, is not a key of the store.
\<close>

theorem not_found_iff_absent:
  "(fst (getUserById s ident) = None \<longleftrightarrow> \<not> Map_has (users s) ident)
   \<and> (fst (updateUser s ident userData now) = Inl UserNotFound
        \<longleftrightarrow> \<not> Map_has (users s) ident)
   \<and> (fst (deleteUser s ident) = Inl UserNotFound \<longleftrightarrow> \<not> Map_has (users s) ident)
   \<and> (ident \<notin> set (created_ids (fst (run init_store ops)))
        \<longrightarrow> \<not> Map_has (users (snd (run init_store ops))) ident)"
proof -
  have g: "fst (getUserById s ident) = None \<longleftrightarrow> \<not> Map_has (users s) ident"
    by (simp add: getUserById_def Map_has_get)
  have u: "fst (updateUser s ident userData now) = Inl UserNotFound
             \<longleftrightarrow> \<not> Map_has (users s) ident"
    by (simp add: updateUser_def Let_def Map_has_get split: option.splits)
  have d: "fst (deleteUser s ident) = Inl UserNotFound \<longleftrightarrow> \<not> Map_has (users s) ident"
    by (simp add: deleteUser_def)
  have "Map_has (users (snd (run init_store ops))) ident \<Longrightarrow>
        ident \<in> set (created_ids (fst (run init_store ops)))"
    using absent_unless_issued [of init_store ops ident] by (simp add: init_store_def)
  then have n: "ident \<notin> set (created_ids (fst (run init_store ops)))
        \<longrightarrow> \<not> Map_has (users (snd (run init_store ops))) ident"
    by blast
  from g u d n show ?thesis by blast
qed

theorem not_found_iff_absent_witness:
  "JNum 0 \<notin> set (created_ids (fst (run init_store [Create Map.empty (js ''t'') (js ''t'')])))
   \<and> fst (getUserById (snd (run init_store [Create Map.empty (js ''t'') (js ''t'')]))
          (JNum 0)) = None
   \<and> fst (updateUser (snd (run init_store [Create Map.empty (js ''t'') (js ''t'')]))
          (JNum 0) Map.empty (js ''t'')) = Inl UserNotFound
   \<and> fst (deleteUser (snd (run init_store [Create Map.empty (js ''t'') (js ''t'')]))
          (JNum 0)) = Inl UserNotFound
   \<and> fst (getUserById (snd (run init_store [Create Map.empty (js ''t'') (js ''t'')]))
          (JNum 1)) \<noteq> None"
proof -
  have i: "JNum 0 \<notin> set (created_ids (fst (run init_store
             [Create Map.empty (js ''t'') (js ''t'')])))"
    by (simp add: init_store_def createUser_def Let_def getProp_def)
  have p: "Map_has (users (snd (run init_store [Create Map.empty (js ''t'') (js ''t'')])))
             (JNum 1)"
    by (simp add: init_store_def createUser_def Let_def getProp_def)
  from i p show ?thesis
    using not_found_iff_absent
            [of "snd (run init_store [Create Map.empty (js ''t'') (js ''t'')])" "JNum 0"
                Map.empty "js ''t''" "[Create Map.empty (js ''t'') (js ''t'')]"]
          not_found_iff_absent
            [of "snd (run init_store [Create Map.empty (js ''t'') (js ''t'')])" "JNum 1"
                Map.empty "js ''t''" "[]"]
    by blast
qed

subsection \<open>Update\<close>

lemma str_less_irrefl: "\<not> str_less x x"
  by (induction x) auto

text \<open>
  C5, as the source has it. On an id that is present, update merges the given fields
  over the stored record key by key (a given key overwrites, the other keys stay),
  sets \<open>updatedAt\<close> to the clock reading of the call, stores the merged record under the
  id and returns it. In the example the result has name \<open>a\<close>, email \<open>y\<close>, the
  \<open>createdAt\<close> of the create and the \<open>updatedAt\<close> of the update; \<open>updatedAt\<close> is
  strictly later than \<open>createdAt\<close> exactly when the update read a strictly later clock
  than the create.
\<close>

theorem update_merges_fields:
  assumes "Map_get (users s) ident = Some user"
    and "merged = (user ++ userData)(js ''updatedAt'' \<mapsto> JStr now)"
  shows "fst (updateUser s ident userData now) = Inr merged
     \<and> Map_get (users (snd (updateUser s ident userData now))) ident = Some merged
     \<and> merged (js ''updatedAt'') = Some (JStr now)
     \<and> (\<forall>k. k \<noteq> js ''updatedAt'' \<longrightarrow>
            merged k = (case userData k of None \<Rightarrow> user k | Some v \<Rightarrow> Some v))
     \<and> fst (merge_example_update now1 now2 now3) =
          Inr [js ''id'' \<mapsto> JNum 1, js ''name'' \<mapsto> JStr (js ''a''),
               js ''email'' \<mapsto> JStr (js ''y''), js ''createdAt'' \<mapsto> JStr now1,
               js ''updatedAt'' \<mapsto> JStr now3]
     \<and> fst (merge_example_create now1 now2) (js ''createdAt'') = Some (JStr now1)
     \<and> (\<forall>r. fst (merge_example_update now1 now2 now3) = Inr r \<longrightarrow>
            (later (getProp r (js ''updatedAt'')) (getProp r (js ''createdAt''))
               \<longleftrightarrow> str_less now1 now3))"
proof -
  have a: "fst (updateUser s ident userData now) = Inr merged"
    using assms by (simp add: updateUser_def Let_def)
  have b: "Map_get (users (snd (updateUser s ident userData now))) ident = Some merged"
    using assms by (simp add: updateUser_def Let_def Map_get_set_same)
  have c: "merged (js ''updatedAt'') = Some (JStr now)"
    using assms by simp
  have d: "\<forall>k. k \<noteq> js ''updatedAt'' \<longrightarrow>
            merged k = (case userData k of None \<Rightarrow> user k | Some v \<Rightarrow> Some v)"
    using assms by (simp add: map_add_def)
  have e: "fst (merge_example_update now1 now2 now3) =
          Inr [js ''id'' \<mapsto> JNum 1, js ''name'' \<mapsto> JStr (js ''a''),
               js ''email'' \<mapsto> JStr (js ''y''), js ''createdAt'' \<mapsto> JStr now1,
               js ''updatedAt'' \<mapsto> JStr now3]"
    by (auto simp: merge_example_update_def merge_example_create_def createUser_def
          updateUser_def init_store_def Let_def getProp_def js_def map_add_def fun_eq_iff)
  have f: "fst (merge_example_create now1 now2) (js ''createdAt'') = Some (JStr now1)"
    by (simp add: merge_example_create_def createUser_def Let_def)
  have g: "\<forall>r. fst (merge_example_update now1 now2 now3) = Inr r \<longrightarrow>
            (later (getProp r (js ''updatedAt'')) (getProp r (js ''createdAt''))
               \<longleftrightarrow> str_less now1 now3)"
    unfolding e by (simp add: getProp_def)
  from a b c d e f g show ?thesis by simp
qed

theorem update_merges_fields_witness:
  "fst (updateUser (snd (merge_example_create (js ''t1'') (js ''t1''))) (JNum 1)
          [js ''email'' \<mapsto> JStr (js ''y'')] (js ''t2''))
     = Inr (((fst (merge_example_create (js ''t1'') (js ''t1'')))
               ++ [js ''email'' \<mapsto> JStr (js ''y'')])(js ''updatedAt'' \<mapsto> JStr (js ''t2'')))
   \<and> later (getProp (projr (fst (merge_example_update (js ''t1'') (js ''t1'') (js ''t2''))))
               (js ''updatedAt''))
            (getProp (projr (fst (merge_example_update (js ''t1'') (js ''t1'') (js ''t2''))))
               (js ''createdAt''))"
proof -
  have p: "Map_get (users (snd (merge_example_create (js ''t1'') (js ''t1'')))) (JNum 1)
             = Some (fst (merge_example_create (js ''t1'') (js ''t1'')))"
    by (simp add: merge_example_create_def createUser_def init_store_def Let_def
          getProp_def js_def)
  have l: "str_less (js ''t1'') (js ''t2'')"
    by (simp add: js_def)
  show ?thesis
    using l update_merges_fields [OF p refl, of "[js ''email'' \<mapsto> JStr (js ''y'')]"
            "js ''t2''" "js ''t1''" "js ''t1''" "js ''t2''"]
    by simp
qed

text \<open>
  C5 as stated fails in the example at one instant: when the create and the update
  read the same clock value, as two calls within one millisecond do, \<open>updatedAt\<close>
  equals \<open>createdAt\<close> and is not strictly later.
\<close>

theorem merge_example_same_instant_counterexample:
  "\<not> isl (fst (merge_example_update (js ''2026-01-01T00:00:00.000Z'')
                (js ''2026-01-01T00:00:00.000Z'') (js ''2026-01-01T00:00:00.000Z'')))
   \<and> getProp (projr (fst (merge_example_update (js ''2026-01-01T00:00:00.000Z'')
                (js ''2026-01-01T00:00:00.000Z'') (js ''2026-01-01T00:00:00.000Z''))))
         (js ''updatedAt'')
       = getProp (projr (fst (merge_example_update (js ''2026-01-01T00:00:00.000Z'')
                (js ''2026-01-01T00:00:00.000Z'') (js ''2026-01-01T00:00:00.000Z''))))
         (js ''createdAt'')
   \<and> \<not> later
        (getProp (projr (fst (merge_example_update (js ''2026-01-01T00:00:00.000Z'')
                (js ''2026-01-01T00:00:00.000Z'') (js ''2026-01-01T00:00:00.000Z''))))
           (js ''updatedAt''))
        (getProp (projr (fst (merge_example_update (js ''2026-01-01T00:00:00.000Z'')
                (js ''2026-01-01T00:00:00.000Z'') (js ''2026-01-01T00:00:00.000Z''))))
           (js ''createdAt''))"
  by (simp add: merge_example_update_def merge_example_create_def createUser_def
        updateUser_def init_store_def Let_def getProp_def js_def)

subsection \<open>Identity\<close>

text \<open>The counter moves by one at each create and at nothing else.\<close>

lemma run_Cons:
  "run s (x # xs) =
     (fst (step s x) # fst (run (snd (step s x)) xs), snd (run (snd (step s x)) xs))"
  by (simp split: prod.splits)

lemma nextId_step:
  "nextId (snd (step s x)) = nextId s + int (creates [x])"
  by (cases x)
     (simp_all add: getAllUsers_def createUser_def getUserById_def updateUser_def
        deleteUser_def Let_def split: option.splits)

lemma creates_Cons: "creates (x # xs) = creates [x] + creates xs"
  by (cases x) simp_all

lemma nextId_run: "nextId (snd (run s ops)) = nextId s + int (creates ops)"
proof (induction ops arbitrary: s)
  case Nil
  then show ?case by simp
next
  case (Cons x xs)
  have "nextId (snd (run s (x # xs))) = nextId (snd (step s x)) + int (creates xs)"
    by (simp only: run_Cons snd_conv Cons.IH)
  then show ?case
    by (simp add: nextId_step creates_Cons [of x xs])
qed

lemma snd_step:
  "snd (step s GetAll) = snd (getAllUsers s)"
  "snd (step s (Create d a b)) = snd (createUser s d a b)"
  "snd (step s (GetById i)) = snd (getUserById s i)"
  "snd (step s (Update i d a)) = snd (updateUser s i d a)"
  "snd (step s (Delete i)) = snd (deleteUser s i)"
  by (simp_all split: prod.splits)

lemma map_upt_shift:
  "map (\<lambda>i. JNum (n + int i)) [0..<Suc k] = JNum n # map (\<lambda>i. JNum (n + 1 + int i)) [0..<k]"
proof -
  have "[0..<Suc k] = 0 # map Suc [0..<k]"
    by (simp only: map_Suc_upt upt_conv_Cons [of 0 "Suc k"] zero_less_Suc)
  then have "map (\<lambda>i. JNum (n + int i)) [0..<Suc k]
               = map (\<lambda>i. JNum (n + int i)) (0 # map Suc [0..<k])"
    by (simp only:)
  also have "\<dots> = JNum n # map (\<lambda>i. JNum (n + 1 + int i)) [0..<k]"
    by (simp add: add.assoc)
  finally show ?thesis .
qed

text \<open>When no create is given an \<open>id\<close> key, the ids returned are the consecutive
  integers from the counter on, in call order, whatever else happens in between.\<close>

lemma created_ids_consecutive:
  "\<forall>x \<in> set ops. no_id x \<Longrightarrow>
   created_ids (fst (run s ops)) = map (\<lambda>i. JNum (nextId s + int i)) [0..<creates ops]"
proof (induction ops arbitrary: s)
  case Nil
  then show ?case by simp
next
  case (Cons x xs)
  obtain r s1 where st: "step s x = (r, s1)" by (cases "step s x")
  obtain rs s2 where rn: "run s1 xs = (rs, s2)" by (cases "run s1 xs")
  from Cons.prems have "\<forall>x \<in> set xs. no_id x" by simp
  then have "created_ids (fst (run s1 xs))
               = map (\<lambda>i. JNum (nextId s1 + int i)) [0..<creates xs]"
    by (rule Cons.IH)
  with rn have ih: "created_ids rs = map (\<lambda>i. JNum (nextId s1 + int i)) [0..<creates xs]"
    by simp
  show ?case
  proof (cases x)
    case GetAll
    with st rn ih show ?thesis by (auto simp: getAllUsers_def)
  next
    case (Create d a b)
    with Cons.prems have "d (js ''id'') = None" by simp
    with Create st have "getProp (case r of Created u \<Rightarrow> u) (js ''id'') = JNum (nextId s)"
      and "nextId s1 = nextId s + 1" and "\<exists>u. r = Created u"
      by (auto simp: createUser_def Let_def getProp_def map_add_def)
    with Create st rn ih show ?thesis
      by (auto simp: map_upt_shift simp del: upt_Suc)
  next
    case (GetById i)
    with st rn ih show ?thesis by (auto simp: getUserById_def)
  next
    case (Update i d a)
    with st rn ih show ?thesis
      by (auto simp: updateUser_def Let_def split: option.splits)
  next
    case (Delete i)
    with st rn ih show ?thesis
      by (auto simp: deleteUser_def split: if_splits)
  qed
qed

text \<open>
  C1 asks that the ids returned by N creates, with arbitrary field maps and deletes in
  between, be N distinct consecutive integers in call order, and that an id is never
  assigned a second time. The source writes \<open>id\<close> before it spreads the caller's
  fields, so an \<open>id\<close> key of the field map replaces the counter's value (while
  \<open>createdAt\<close> and \<open>updatedAt\<close>, written after the spread, cannot be replaced). On a
  fresh store: a create, then a create with \<open>{id: 1}\<close>, return the id 1 twice; the same
  with a delete of 1 in between assigns the deleted id again; a single create with
  \<open>{id: 7}\<close> returns 7, not 1.
\<close>

theorem create_id_override:
  "created_ids (fst (run init_store
      [Create Map.empty (js ''t1'') (js ''t1''),
       Create [js ''id'' \<mapsto> JNum 1] (js ''t2'') (js ''t2'')]))
     = [JNum 1, JNum 1]
   \<and> created_ids (fst (run init_store
      [Create Map.empty (js ''t1'') (js ''t1''),
       Delete (JNum 1),
       Create [js ''id'' \<mapsto> JNum 1] (js ''t2'') (js ''t2'')]))
     = [JNum 1, JNum 1]
   \<and> created_ids (fst (run init_store
      [Create [js ''id'' \<mapsto> JNum 7] (js ''t1'') (js ''t1'')]))
     = [JNum 7]"
  by (simp add: init_store_def createUser_def deleteUser_def Let_def getProp_def js_def)

subsection \<open>Timestamps under update\<close>

text \<open>An update whose fields have no \<open>createdAt\<close> key leaves every \<open>createdAt\<close> of the
  store as it is, and an update that succeeds sets \<open>updatedAt\<close> to its clock reading,
  whatever the fields say.\<close>

lemma update_keeps_createdAt:
  assumes "userData (js ''createdAt'') = None"
  shows "field_of (snd (updateUser s ident userData now)) k (js ''createdAt'')
           = field_of s k (js ''createdAt'')"
proof (cases "Map_get (users s) ident")
  case None
  then show ?thesis by (simp add: updateUser_def)
next
  case (Some user)
  show ?thesis
  proof (cases "k = ident")
    case True
    with Some assms show ?thesis
      by (simp add: updateUser_def Let_def field_of_def Map_get_set_same map_add_def)
  next
    case False
    with Some show ?thesis
      by (simp add: updateUser_def Let_def field_of_def Map_get_set_other)
  qed
qed

lemma update_refreshes_updatedAt:
  "Map_has (users s) ident \<Longrightarrow>
   field_of (snd (updateUser s ident userData now)) ident (js ''updatedAt'') = Some (JStr now)"
  by (auto simp: updateUser_def Let_def field_of_def Map_get_set_same Map_has_get
        split: option.splits)

text \<open>
  C4 asks that \<open>createdAt\<close> never change after the create, for updates with arbitrary
  field maps. The source spreads the caller's fields over the stored record and
  rewrites only \<open>updatedAt\<close> after the spread, so a \<open>createdAt\<close> key of the fields is
  stored: after a create at \<open>t1\<close>, an update with \<open>{createdAt: "x"}\<close> leaves the record
  with \<open>createdAt\<close> equal to \<open>x\<close>.
\<close>

theorem update_overwrites_createdAt:
  "field_of (snd (run init_store [Create Map.empty (js ''t1'') (js ''t1'')]))
      (JNum 1) (js ''createdAt'') = Some (JStr (js ''t1''))
   \<and> field_of (snd (run init_store
        [Create Map.empty (js ''t1'') (js ''t1''),
         Update (JNum 1) [js ''createdAt'' \<mapsto> JStr (js ''x'')] (js ''t2'')]))
      (JNum 1) (js ''createdAt'') = Some (JStr (js ''x''))"
  by (simp add: init_store_def createUser_def updateUser_def Let_def getProp_def js_def
        field_of_def)

subsection \<open>Listing\<close>

text \<open>Listing changes nothing and gives the same sequence again; an update keeps every
  record at its place; a create under a key that is not in the store puts the record
  last.\<close>

lemma getAllUsers_idempotent:
  "snd (getAllUsers s) = s
   \<and> fst (getAllUsers (snd (getAllUsers s))) = fst (getAllUsers s)"
  by (simp add: getAllUsers_def)

lemma update_keeps_order:
  "map fst (users (snd (updateUser s ident userData now))) = map fst (users s)"
  by (auto simp: updateUser_def Let_def Map_set_keys split: option.splits
        dest: Map_get_Some_has)

lemma create_fresh_appends:
  "\<not> Map_has (users s) (getProp (fst (createUser s userData now1 now2)) (js ''id'')) \<Longrightarrow>
   fst (getAllUsers (snd (createUser s userData now1 now2)))
     = fst (getAllUsers s) @ [fst (createUser s userData now1 now2)]"
  by (simp add: createUser_def getAllUsers_def Map_values_def Let_def Map_set_absent)

lemma Map_has_keys: "Map_has m k \<longleftrightarrow> k \<in> set (map fst m)"
  by (induction m) auto

lemma Map_delete_keys: "map fst (Map_delete m k) = filter (\<lambda>a. a \<noteq> k) (map fst m)"
  by (induction m) auto

text \<open>When no create is given an \<open>id\<close> key, the keys of the store are numbers in
  increasing order: the listing is in the order of the ids, which is the order of
  creation.\<close>

lemma step_keeps_id_order:
  assumes "no_id x"
    and "map fst (users s) = map JNum ns" and "sorted_wrt (<) ns"
    and "\<forall>n \<in> set ns. n < nextId s"
  shows "\<exists>ms. map fst (users (snd (step s x))) = map JNum ms \<and> sorted_wrt (<) ms
           \<and> (\<forall>n \<in> set ms. n < nextId (snd (step s x)))"
proof (cases x)
  case GetAll
  with assms show ?thesis by (auto simp: getAllUsers_def)
next
  case (Create d a b)
  with assms(1) have d: "d (js ''id'') = None" by simp
  have fresh: "\<not> Map_has (users s) (JNum (nextId s))"
    using assms(2,4) by (auto simp: Map_has_keys)
  from d have "users (snd (step s x)) = users s @ [(JNum (nextId s),
      fst (createUser s d a b))]" and "nextId (snd (step s x)) = nextId s + 1"
    using Create fresh
    by (simp_all add: createUser_def Let_def getProp_def map_add_def Map_set_absent)
  then have "map fst (users (snd (step s x))) = map JNum (ns @ [nextId s])
      \<and> sorted_wrt (<) (ns @ [nextId s])
      \<and> (\<forall>n \<in> set (ns @ [nextId s]). n < nextId (snd (step s x)))"
    using assms(2,3,4) by (auto simp: sorted_wrt_append)
  then show ?thesis by blast
next
  case (GetById i)
  with assms show ?thesis by (auto simp: getUserById_def)
next
  case (Update i d a)
  have "nextId (snd (updateUser s i d a)) = nextId s"
    by (simp add: updateUser_def Let_def split: option.splits)
  with Update assms show ?thesis
    by (auto simp: update_keeps_order snd_step simp del: step.simps)
next
  case (Delete i)
  have "\<not> Map_has (users s) i \<Longrightarrow> filter (\<lambda>a. a \<noteq> i) (map fst (users s)) = map fst (users s)"
    unfolding Map_has_keys filter_id_conv by blast
  then have k: "map fst (users (snd (deleteUser s i))) = filter (\<lambda>a. a \<noteq> i) (map fst (users s))"
    by (simp add: deleteUser_def Map_delete_keys)
  have n: "nextId (snd (deleteUser s i)) = nextId s"
    by (simp add: deleteUser_def)
  have "filter (\<lambda>a. a \<noteq> i) (map JNum ns) = map JNum (filter (\<lambda>n. JNum n \<noteq> i) ns)"
    by (simp add: filter_map comp_def)
  with k assms(2) have "map fst (users (snd (deleteUser s i)))
      = map JNum (filter (\<lambda>n. JNum n \<noteq> i) ns)" by simp
  moreover have "sorted_wrt (<) (filter (\<lambda>n. JNum n \<noteq> i) ns)"
    using assms(3) by (rule sorted_wrt_filter)
  moreover have "\<forall>n \<in> set (filter (\<lambda>n. JNum n \<noteq> i) ns). n < nextId (snd (deleteUser s i))"
    using assms(4) n by simp
  ultimately show ?thesis using Delete by (auto simp: snd_step simp del: step.simps)
qed

lemma run_keeps_id_order:
  "\<forall>x \<in> set ops. no_id x \<Longrightarrow>
   map fst (users s) = map JNum ns \<Longrightarrow> sorted_wrt (<) ns \<Longrightarrow> \<forall>n \<in> set ns. n < nextId s \<Longrightarrow>
   \<exists>ms. map fst (users (snd (run s ops))) = map JNum ms \<and> sorted_wrt (<) ms"
proof (induction ops arbitrary: s ns)
  case Nil
  then show ?case by auto
next
  case (Cons x xs)
  from Cons.prems have "no_id x" by simp
  from step_keeps_id_order [OF this Cons.prems(2,3,4)]
  obtain ms where m: "map fst (users (snd (step s x))) = map JNum ms" "sorted_wrt (<) ms"
    "\<forall>n \<in> set ms. n < nextId (snd (step s x))"
    by blast
  from Cons.prems have "\<forall>x \<in> set xs. no_id x" by simp
  from Cons.IH [OF this m]
  show ?case by (simp only: run_Cons snd_conv)
qed

lemma listing_in_id_order:
  "\<forall>x \<in> set ops. no_id x \<Longrightarrow>
   \<exists>ms. map fst (users (snd (run init_store ops))) = map JNum ms \<and> sorted_wrt (<) ms"
  using run_keeps_id_order [of ops init_store "[]"] by (simp add: init_store_def)

text \<open>
  C7 asks that the listing be in the order in which the records were created. A create
  whose field map carries the id of a stored record (the id override described at C1)
  replaces that record where it stands: after creates at \<open>t1\<close> and \<open>t2\<close> and a create
  with \<open>{id: 1}\<close> at \<open>t3\<close>, the listing has the record created at \<open>t3\<close> before the one
  created at \<open>t2\<close>.
\<close>

theorem list_after_id_override:
  "created_stamps (fst (getAllUsers (snd (run init_store
      [Create Map.empty (js ''t1'') (js ''t1''),
       Create Map.empty (js ''t2'') (js ''t2''),
       Create [js ''id'' \<mapsto> JNum 1] (js ''t3'') (js ''t3'')]))))
     = [JStr (js ''t3''), JStr (js ''t2'')]"
  by (simp add: init_store_def createUser_def getAllUsers_def Map_values_def
        created_stamps_def Let_def getProp_def js_def)

section \<open>The rate limiter\<close>

lemma Map_get_in_set: "Map_get m k = Some v \<Longrightarrow> (k, v) \<in> set m"
  by (induction m) (auto split: if_splits)

lemma userRequests_stored:
  "(case Map_get (if \<not> Map_has requests key then Map_set requests key [] else requests) key
      of None \<Rightarrow> [] | Some ts \<Rightarrow> ts) = stored requests key"
  by (simp add: stored_def Map_get_set_same Map_has_get split: option.splits)

lemma rateLimiter_Next:
  "fst (rateLimiter windowMs max' requests key now) = Next
     \<longleftrightarrow> int (length (filter (\<lambda>t. t > now - windowMs) (stored requests key))) < max'"
  unfolding rateLimiter_def Let_def userRequests_stored by simp

lemma rateLimiter_admitted:
  "fst (rateLimiter windowMs max' requests key now) = Next \<Longrightarrow>
     Map_get (snd (rateLimiter windowMs max' requests key now)) key
       = Some (filter (\<lambda>t. t > now - windowMs) (stored requests key) @ [now])"
  unfolding rateLimiter_def Let_def userRequests_stored
  by (simp add: Map_get_set_same split: if_splits)

text \<open>On rejection the source returns before any write of the pruned array: the key
  keeps the array it had (the empty one if it was new).\<close>

lemma rateLimiter_rejected:
  "fst (rateLimiter windowMs max' requests key now) = TooManyRequests \<Longrightarrow>
     Map_get (snd (rateLimiter windowMs max' requests key now)) key
       = Some (stored requests key)"
  unfolding rateLimiter_def Let_def userRequests_stored
  by (auto simp: Map_get_set_same stored_def Map_has_get split: if_splits)

text \<open>
  C2. A call is admitted exactly when fewer than \<open>max\<close> of the timestamps stored for the
  key are strictly greater than \<open>now - windowMs\<close>; a stored timestamp equal to
  \<open>now - windowMs\<close> is pruned; on admission the pruned sequence followed by \<open>now\<close> is
  what the key holds afterwards.
\<close>

theorem rateLimiter_admits_iff:
  assumes "pruned = filter (\<lambda>t. t > now - windowMs) (stored requests key)"
  shows "(fst (rateLimiter windowMs max' requests key now) = Next
            \<longleftrightarrow> int (length pruned) < max')
         \<and> now - windowMs \<notin> set pruned
         \<and> (fst (rateLimiter windowMs max' requests key now) = Next
              \<longrightarrow> Map_get (snd (rateLimiter windowMs max' requests key now)) key
                    = Some (pruned @ [now]))"
  using assms rateLimiter_Next [of windowMs max' requests key now]
    rateLimiter_admitted [of windowMs max' requests key now]
  by simp

theorem rateLimiter_admits_iff_witness:
  "fst (rateLimiter 1000 2 [(JStr (js ''ip''), [0, 100])] (JStr (js ''ip'')) 1000) = Next
   \<and> Map_get (snd (rateLimiter 1000 2 [(JStr (js ''ip''), [0, 100])] (JStr (js ''ip'')) 1000))
        (JStr (js ''ip'')) = Some [100, 1000]
   \<and> fst (rateLimiter 1000 2 [(JStr (js ''ip''), [0, 100])] (JStr (js ''ip'')) 999) \<noteq> Next"
  using rateLimiter_admits_iff
          [of "[100]" 1000 1000 "[(JStr (js ''ip''), [0, 100])]" "JStr (js ''ip'')" 2]
        rateLimiter_admits_iff
          [of "[0, 100]" 999 1000 "[(JStr (js ''ip''), [0, 100])]" "JStr (js ''ip'')" 2]
  by (simp add: stored_def)

text \<open>
  What a middleware stores for a key is empty or has at most \<open>max\<close> entries: an array is
  written only on admission, when fewer than \<open>max\<close> entries were kept and one is added.
\<close>

lemma rateLimiter_bounded:
  assumes "\<forall>(k, ts) \<in> set requests. ts = [] \<or> int (length ts) \<le> max'"
  shows "\<forall>(k, ts) \<in> set (snd (rateLimiter windowMs max' requests key now)).
           ts = [] \<or> int (length ts) \<le> max'"
proof -
  have a: "\<forall>(k, ts) \<in> set (Map_set requests key []). ts = [] \<or> int (length ts) \<le> max'"
    using assms set_Map_set [of requests key "[]"] by auto
  then have b: "\<forall>(k, ts) \<in> set (if \<not> Map_has requests key then Map_set requests key []
                  else requests). ts = [] \<or> int (length ts) \<le> max'"
    using assms by simp
  show ?thesis
  proof (cases "fst (rateLimiter windowMs max' requests key now)")
    case TooManyRequests
    then have "snd (rateLimiter windowMs max' requests key now)
                 = (if \<not> Map_has requests key then Map_set requests key [] else requests)"
      by (simp add: rateLimiter_def Let_def split: if_splits)
    with b show ?thesis by simp
  next
    case Next
    let ?v = "filter (\<lambda>t. t > now - windowMs) (stored requests key)"
    let ?r1 = "if \<not> Map_has requests key then Map_set requests key [] else requests"
    from Next have len: "int (length ?v) < max'"
      by (simp add: rateLimiter_Next)
    from Next have "snd (rateLimiter windowMs max' requests key now)
                 = Map_set ?r1 key (?v @ [now])"
      unfolding rateLimiter_def Let_def userRequests_stored by (simp split: if_splits)
    moreover have "\<forall>(k, ts) \<in> set (Map_set ?r1 key (?v @ [now])).
                     ts = [] \<or> int (length ts) \<le> max'"
      using b len set_Map_set [of ?r1 key "?v @ [now]"] by auto
    ultimately show ?thesis by simp
  qed
qed

lemma serve_bounded:
  "\<forall>(k, ts) \<in> set requests. ts = [] \<or> int (length ts) \<le> max' \<Longrightarrow>
   \<forall>(k, ts) \<in> set (serve windowMs max' requests calls). ts = [] \<or> int (length ts) \<le> max'"
proof (induction calls arbitrary: requests)
  case Nil
  then show ?case by simp
next
  case (Cons c calls)
  obtain key now where c: "c = (key, now)" by (cases c)
  from Cons.prems
  have "\<forall>(k, ts) \<in> set (snd (rateLimiter windowMs max' requests key now)).
           ts = [] \<or> int (length ts) \<le> max'"
    by (rule rateLimiter_bounded)
  then show ?case using c Cons.IH by simp
qed

lemma filter_all_kept: "length xs \<le> length (filter P xs) \<Longrightarrow> filter P xs = xs"
  by (metis filter_True length_filter_le le_antisym length_filter_less not_le)

text \<open>
  C3. In every state a middleware can reach, a call that is rejected leaves for the key
  the pruned sequence, with nothing appended. The source does not write on rejection;
  but a rejection needs \<open>max\<close> entries in the window, the stored array has no more than
  that, so on a rejection the pruning removes nothing and the array left in place is
  the pruned one.
\<close>

theorem rejected_keeps_pruned:
  assumes "requests = serve windowMs max' [] calls"
    and "fst (rateLimiter windowMs max' requests key now) = TooManyRequests"
  shows "Map_get (snd (rateLimiter windowMs max' requests key now)) key
           = Some (filter (\<lambda>t. t > now - windowMs) (stored requests key))"
proof -
  let ?ts = "stored requests key"
  let ?v = "filter (\<lambda>t. t > now - windowMs) ?ts"
  have inv: "\<forall>(k, ts) \<in> set requests. ts = [] \<or> int (length ts) \<le> max'"
    unfolding assms(1) by (rule serve_bounded) simp
  have small: "?ts = [] \<or> int (length ?ts) \<le> max'"
  proof (cases "Map_get requests key")
    case None
    then show ?thesis by (simp add: stored_def)
  next
    case (Some ts)
    then have "(key, ts) \<in> set requests" by (rule Map_get_in_set)
    with inv Some show ?thesis by (auto simp: stored_def)
  qed
  from assms(2) have full: "max' \<le> int (length ?v)"
    using rateLimiter_Next [of windowMs max' requests key now]
    by (cases "int (length ?v) < max'") auto
  have "?v = ?ts"
  proof (cases "?ts = []")
    case True
    then show ?thesis by simp
  next
    case False
    with small full have "length ?ts \<le> length ?v" by linarith
    then show ?thesis by (rule filter_all_kept)
  qed
  with rateLimiter_rejected [OF assms(2)] show ?thesis by simp
qed

theorem rejected_keeps_pruned_witness:
  "fst (rateLimiter 1000 2 (serve 1000 2 [] [(JStr (js ''ip''), 0), (JStr (js ''ip''), 100)])
         (JStr (js ''ip'')) 200) = TooManyRequests
   \<and> Map_get (snd (rateLimiter 1000 2
         (serve 1000 2 [] [(JStr (js ''ip''), 0), (JStr (js ''ip''), 100)])
         (JStr (js ''ip'')) 200)) (JStr (js ''ip'')) = Some [0, 100]"
proof -
  have r: "fst (rateLimiter 1000 2
              (serve 1000 2 [] [(JStr (js ''ip''), 0), (JStr (js ''ip''), 100)])
              (JStr (js ''ip'')) 200) = TooManyRequests"
    by (simp add: rateLimiter_def js_def)
  have s: "stored (serve 1000 2 [] [(JStr (js ''ip''), 0), (JStr (js ''ip''), 100)])
             (JStr (js ''ip'')) = [0, 100]"
    by (simp add: rateLimiter_def stored_def js_def)
  show ?thesis
    using r s rejected_keeps_pruned [OF refl r] by simp
qed

section \<open>Validation\<close>

lemma rx_test_One:
  "rx_test (One cl # r) s \<longleftrightarrow> (\<exists>c v. s = c # v \<and> in_class cl c \<and> rx_test r v)"
  by (cases s) auto

lemma rx_test_Many:
  "rx_test (Many cl # r) s \<longleftrightarrow>
     (\<exists>u v. s = u @ v \<and> u \<noteq> [] \<and> (\<forall>c \<in> set u. in_class cl c) \<and> rx_test r v)"
proof (induction s)
  case Nil
  then show ?case by simp
next
  case (Cons c s)
  show ?case
  proof
    assume "rx_test (Many cl # r) (c # s)"
    then have c: "in_class cl c" and d: "rx_test (Many cl # r) s \<or> rx_test r s" by auto
    from d show "\<exists>u v. c # s = u @ v \<and> u \<noteq> [] \<and> (\<forall>c \<in> set u. in_class cl c) \<and> rx_test r v"
    proof
      assume "rx_test (Many cl # r) s"
      with Cons.IH obtain u v where "s = u @ v" "\<forall>c \<in> set u. in_class cl c" "rx_test r v"
        by blast
      with c have "c # s = (c # u) @ v \<and> c # u \<noteq> [] \<and> (\<forall>x \<in> set (c # u). in_class cl x)
                    \<and> rx_test r v"
        by simp
      then show ?thesis by blast
    next
      assume "rx_test r s"
      with c have "c # s = [c] @ s \<and> [c] \<noteq> [] \<and> (\<forall>x \<in> set [c]. in_class cl x) \<and> rx_test r s"
        by simp
      then show ?thesis by blast
    qed
  next
    assume "\<exists>u v. c # s = u @ v \<and> u \<noteq> [] \<and> (\<forall>c \<in> set u. in_class cl c) \<and> rx_test r v"
    then obtain u v where e: "c # s = u @ v" and n: "u \<noteq> []"
      and a: "\<forall>c \<in> set u. in_class cl c" and m: "rx_test r v"
      by blast
    from n obtain u' where u: "u = c # u'" using e by (cases u) auto
    with e have s: "s = u' @ v" by simp
    from a u have c: "in_class cl c" and a': "\<forall>c \<in> set u'. in_class cl c" by auto
    show "rx_test (Many cl # r) (c # s)"
    proof (cases "u' = []")
      case True
      with s m c show ?thesis by simp
    next
      case False
      with s a' m Cons.IH have "rx_test (Many cl # r) s" by blast
      with c show ?thesis by simp
    qed
  qed
qed

lemma rx_test_email:
  "rx_test emailRegex s \<longleftrightarrow>
    (\<exists>l v1. s = l @ v1 \<and> l \<noteq> [] \<and> (\<forall>c \<in> set l. in_class NotSpaceAt c) \<and>
      (\<exists>c1 v2. v1 = c1 # v2 \<and> in_class (Lit 0x40) c1 \<and>
        (\<exists>d v3. v2 = d @ v3 \<and> d \<noteq> [] \<and> (\<forall>c \<in> set d. in_class NotSpaceAt c) \<and>
          (\<exists>c2 v4. v3 = c2 # v4 \<and> in_class (Lit 0x2E) c2 \<and>
            (\<exists>t v5. v4 = t @ v5 \<and> t \<noteq> [] \<and> (\<forall>c \<in> set t. in_class NotSpaceAt c) \<and>
               v5 = [])))))"
  unfolding emailRegex_def
  by (simp only: rx_test_Many rx_test_One rx_test.simps(1))

lemma validateEmail_shape: "validateEmail s \<longleftrightarrow> email_shape s"
proof
  assume "validateEmail s"
  then have "rx_test emailRegex s" by (simp add: validateEmail_def)
  then obtain l v1 c1 v2 d v3 c2 v4 t v5 where
    "s = l @ v1" "l \<noteq> []" "\<forall>c \<in> set l. in_class NotSpaceAt c"
    "v1 = c1 # v2" "in_class (Lit 0x40) c1"
    "v2 = d @ v3" "d \<noteq> []" "\<forall>c \<in> set d. in_class NotSpaceAt c"
    "v3 = c2 # v4" "in_class (Lit 0x2E) c2"
    "v4 = t @ v5" "t \<noteq> []" "\<forall>c \<in> set t. in_class NotSpaceAt c" "v5 = []"
    unfolding rx_test_email by blast
  then have "s = l @ [0x40] @ d @ [0x2E] @ t \<and> l \<noteq> [] \<and> d \<noteq> [] \<and> t \<noteq> []
      \<and> (\<forall>c \<in> set l. \<not> is_space c \<and> c \<noteq> 0x40)
      \<and> (\<forall>c \<in> set d. \<not> is_space c \<and> c \<noteq> 0x40)
      \<and> (\<forall>c \<in> set t. \<not> is_space c \<and> c \<noteq> 0x40)"
    by simp
  then show "email_shape s" unfolding email_shape_def by blast
next
  assume "email_shape s"
  then obtain l d t where s: "s = l @ [0x40] @ d @ [0x2E] @ t"
    and n: "l \<noteq> []" "d \<noteq> []" "t \<noteq> []"
    and a: "\<forall>c \<in> set l. \<not> is_space c \<and> c \<noteq> 0x40"
           "\<forall>c \<in> set d. \<not> is_space c \<and> c \<noteq> 0x40"
           "\<forall>c \<in> set t. \<not> is_space c \<and> c \<noteq> 0x40"
    unfolding email_shape_def by blast
  have t5: "\<exists>u v5. t = u @ v5 \<and> u \<noteq> [] \<and> (\<forall>c \<in> set u. in_class NotSpaceAt c) \<and> v5 = []"
    using n a by simp
  then have t4: "\<exists>c2 v4. 0x2E # t = c2 # v4 \<and> in_class (Lit 0x2E) c2 \<and>
            (\<exists>u v5. v4 = u @ v5 \<and> u \<noteq> [] \<and> (\<forall>c \<in> set u. in_class NotSpaceAt c) \<and>
               v5 = [])"
    by simp
  have t3: "\<exists>u v3. d @ 0x2E # t = u @ v3 \<and> u \<noteq> [] \<and> (\<forall>c \<in> set u. in_class NotSpaceAt c) \<and>
          (\<exists>c2 v4. v3 = c2 # v4 \<and> in_class (Lit 0x2E) c2 \<and>
            (\<exists>t v5. v4 = t @ v5 \<and> t \<noteq> [] \<and> (\<forall>c \<in> set t. in_class NotSpaceAt c) \<and>
               v5 = []))"
    apply (rule exI [of _ d])
    apply (rule exI [of _ "0x2E # t"])
    using n a t4 by simp
  have t2: "\<exists>c1 v2. 0x40 # d @ 0x2E # t = c1 # v2 \<and> in_class (Lit 0x40) c1 \<and>
        (\<exists>d v3. v2 = d @ v3 \<and> d \<noteq> [] \<and> (\<forall>c \<in> set d. in_class NotSpaceAt c) \<and>
          (\<exists>c2 v4. v3 = c2 # v4 \<and> in_class (Lit 0x2E) c2 \<and>
            (\<exists>t v5. v4 = t @ v5 \<and> t \<noteq> [] \<and> (\<forall>c \<in> set t. in_class NotSpaceAt c) \<and>
               v5 = [])))"
    apply (rule exI [of _ "0x40"])
    apply (rule exI [of _ "d @ 0x2E # t"])
    using t3 by simp
  have "rx_test emailRegex s"
    unfolding rx_test_email
    apply (rule exI [of _ l])
    apply (rule exI [of _ "0x40 # d @ 0x2E # t"])
    using s n a t2 by simp
  then show "validateEmail s" by (simp add: validateEmail_def)
qed

lemma validateUsername_true:
  "validateUsername v = JBool True \<longleftrightarrow> (\<exists>u. v = JStr u \<and> 3 \<le> length u \<and> length u \<le> 50)"
  by (cases v) (auto simp: validateUsername_def js_and_def length_ge_def length_le_def)

lemma validatePassword_true:
  "validatePassword v = JBool True \<longleftrightarrow> (\<exists>u. v = JStr u \<and> 8 \<le> length u)"
  by (cases v) (auto simp: validatePassword_def js_and_def length_ge_def)

text \<open>
  C8. \<open>validateEmail\<close> holds exactly of the strings of the shape \<open>local@domain.tld\<close> of the
  specification; \<open>validateUsername\<close> returns \<open>true\<close> exactly on a string of 3 to 50 code
  units, \<open>validatePassword\<close> exactly on a string of at least 8; and the six examples
  evaluate as the specification says.
\<close>

theorem validation_predicates:
  "(validateEmail s \<longleftrightarrow> email_shape s)
   \<and> (validateUsername v = JBool True
        \<longleftrightarrow> (\<exists>u. v = JStr u \<and> 3 \<le> length u \<and> length u \<le> 50))
   \<and> (validatePassword v = JBool True \<longleftrightarrow> (\<exists>u. v = JStr u \<and> 8 \<le> length u))
   \<and> validateEmail (js ''a@b.co'') \<and> \<not> validateEmail (js ''a@b'')
   \<and> validateUsername (JStr (js ''ab'')) = JBool False
   \<and> validateUsername (JStr (js ''abc'')) = JBool True
   \<and> validatePassword (JStr (js ''1234567'')) = JBool False
   \<and> validatePassword (JStr (js ''12345678'')) = JBool True"
proof -
  have e: "validateEmail (js ''a@b.co'') \<and> \<not> validateEmail (js ''a@b'')"
    by (simp add: validateEmail_def emailRegex_def js_def is_space_def)
  have u: "validateUsername (JStr (js ''ab'')) = JBool False
           \<and> validateUsername (JStr (js ''abc'')) = JBool True"
    by (simp add: validateUsername_def js_and_def length_ge_def length_le_def js_def)
  have p: "validatePassword (JStr (js ''1234567'')) = JBool False
           \<and> validatePassword (JStr (js ''12345678'')) = JBool True"
    by (simp add: validatePassword_def js_and_def length_ge_def js_def)
  from e u p show ?thesis
    using validateEmail_shape [of s] validateUsername_true [of v] validatePassword_true [of v]
    by blast
qed

theorem validation_predicates_witness:
  "email_shape (js ''a@b.co'') \<and> \<not> email_shape (js ''a@b'')
   \<and> validateUsername (JStr (js ''abc'')) = JBool True
   \<and> validatePassword (JStr (js ''1234567'')) \<noteq> JBool True"
  using validation_predicates [of "js ''a@b.co''" "JStr (js ''abc'')"]
        validation_predicates [of "js ''a@b''" "JStr (js ''1234567'')"]
  by (simp add: js_def)

end
